theory Spec2Isabelle
  imports Main "HOL-Library.Char_ord" "HOL-Library.List_Lexorder" "HOL-Library.AList"
begin

section \<open>Values shared by the whole script\<close>

text \<open>
  The script \<^verbatim>\<open>portable-msvc.py\<close> is embedded function by function. Python \<^verbatim>\<open>bytes\<close>
  and \<^verbatim>\<open>str\<close> are both lists of \<^typ>\<open>char\<close>; a \<^typ>\<open>char\<close> is read as the code point
  (or byte) with the same number, so the model covers code points below 256. Strings are
  compared as Python compares them: lexicographically by code point.
\<close>

type_synonym bytes = "char list"

datatype py_error =
    ValueError
  | IndexError
  | KeyError
  | TypeError
  | ZeroDivisionError
  | UnicodeDecodeError
  | URLError_cert
  | URLError_other
  | OtherError
  | SystemExit string
  | SystemExit_None
  | FileExistsError
  | FileNotFoundError
  | NotADirectoryError
  | IsADirectoryError

section \<open>Version selection (lines 150 to 162)\<close>

text \<open>
  \<^verbatim>\<open>max(xs)\<close>: raises ValueError on an empty sequence; otherwise keeps the first item
  and replaces it only by a strictly greater one.
\<close>

fun py_max :: "string list \<Rightarrow> py_error + string" where
  "py_max [] = Inl ValueError"
| "py_max (x # xs) = Inr (fold (\<lambda>y m. if m < y then y else m) xs x)"

text \<open>\<^verbatim>\<open>sorted(d.keys())\<close> of a dictionary held as an association list.\<close>

definition sorted_keys :: "(string \<times> string) list \<Rightarrow> string list" where
  "sorted_keys d = sort (map fst d)"

text \<open>
  \<^verbatim>\<open>args.msvc_version or max(sorted(msvc.keys()))\<close>: the requested version when it is
  truthy (given and not the empty string), the maximum otherwise.
\<close>

definition select_version :: "string option \<Rightarrow> (string \<times> string) list \<Rightarrow> py_error + string" where
  "select_version requested d =
     (case requested of
        Some v \<Rightarrow> if v \<noteq> [] then Inr v else py_max (sorted_keys d)
      | None \<Rightarrow> py_max (sorted_keys d))"

section \<open>Strings\<close>

text \<open>
  \<^verbatim>\<open>str.lower\<close> and \<^verbatim>\<open>str.isnumeric\<close> on code points below 256: the upper-case letters
  are A to Z and U+00C0 to U+00DE without the multiplication sign U+00D7; the numeric
  characters are 0 to 9, the superscripts U+00B2, U+00B3, U+00B9 and the fractions
  U+00BC to U+00BE.
\<close>

definition lower_char :: "char \<Rightarrow> char" where
  "lower_char c =
     (let n = (of_char c :: nat) in
      if 65 \<le> n \<and> n \<le> 90 then char_of (n + 32)
      else if n = 215 then c
      else if 192 \<le> n \<and> n \<le> 222 then char_of (n + 32)
      else c)"

definition lower :: "string \<Rightarrow> string" where
  "lower s = map lower_char s"

definition isnumeric_char :: "char \<Rightarrow> bool" where
  "isnumeric_char c =
     (let n = (of_char c :: nat) in
      (48 \<le> n \<and> n \<le> 57) \<or> n = 178 \<or> n = 179 \<or> n = 185 \<or> (188 \<le> n \<and> n \<le> 190))"

text \<open>\<^verbatim>\<open>s.isnumeric()\<close>: every character is numeric and there is at least one.\<close>

definition isnumeric :: "string \<Rightarrow> bool" where
  "isnumeric s = (s \<noteq> [] \<and> list_all isnumeric_char s)"

definition startswith :: "'a list \<Rightarrow> 'a list \<Rightarrow> bool" where
  "startswith s p = (take (length p) s = p)"

definition endswith :: "'a list \<Rightarrow> 'a list \<Rightarrow> bool" where
  "endswith s p = (length p \<le> length s \<and> drop (length s - length p) s = p)"

text \<open>\<^verbatim>\<open>s.split(sep)\<close> for a separator of one character: never an empty list.\<close>

fun split :: "char \<Rightarrow> string \<Rightarrow> string list" where
  "split c [] = [[]]"
| "split c (x # xs) =
     (if x = c then [] # split c xs
      else (case split c xs of w # ws \<Rightarrow> (x # w) # ws | [] \<Rightarrow> [[x]]))"

text \<open>\<^verbatim>\<open>sep.join(parts)\<close>.\<close>

fun join :: "string \<Rightarrow> string list \<Rightarrow> string" where
  "join sep [] = []"
| "join sep [w] = w"
| "join sep (w # ws) = w @ sep @ join sep ws"

text \<open>
  \<^verbatim>\<open>xs[start:stop]\<close>: a negative bound counts from the end, and both bounds are
  clamped to the list.
\<close>

definition py_slice :: "'a list \<Rightarrow> int \<Rightarrow> int \<Rightarrow> 'a list" where
  "py_slice xs start stop =
     (let n = int (length xs);
          lo = (if start < 0 then max 0 (start + n) else min start n);
          hi = (if stop < 0 then max 0 (stop + n) else min stop n)
      in take (nat (hi - lo)) (drop (nat lo) xs))"

text \<open>\<^verbatim>\<open>xs[start:]\<close>, the slice with no upper bound.\<close>

definition py_slice_from :: "'a list \<Rightarrow> int \<Rightarrow> 'a list" where
  "py_slice_from xs start = py_slice xs start (int (length xs))"

section \<open>The downloader (lines 36 to 65)\<close>

text \<open>
  What \<^verbatim>\<open>urlopen\<close> gives back: the value of \<^verbatim>\<open>int(res.headers["Content-Length"])\<close>
  (an exception when the header is absent or malformed) and the results of the
  successive calls \<^verbatim>\<open>res.read(1<<20)\<close>; after the last listed one the stream is at its
  end and returns the empty block.
\<close>

record response =
  content_length :: "py_error + int"
  reads :: "(py_error + bytes) list"

text \<open>
  The state the function touches: the files of the \<^verbatim>\<open>downloads\<close> folder by name, the
  global counter \<^verbatim>\<open>total_download\<close>, and the list of the URLs opened so far (the network
  accesses, in order).
\<close>

record state =
  files :: "string \<rightharpoonup> bytes"
  total_download :: nat
  requests :: "string list"

text \<open>
  The loop of lines 50 to 58. It returns the exception that ended it, if any, what has
  been written to the file and what has been gathered in memory. The progress line is
  not modelled, its division is: \<^verbatim>\<open>size * 100 // total\<close> raises when \<^verbatim>\<open>total\<close> is 0.
\<close>

fun read_loop ::
  "(py_error + bytes) list \<Rightarrow> int \<Rightarrow> bytes \<Rightarrow> bytes \<Rightarrow> nat \<Rightarrow> py_error option \<times> bytes \<times> bytes" where
  "read_loop [] tot f data sz = (None, f, data)"
| "read_loop (Inl e # rs) tot f data sz = (Some e, f, data)"
| "read_loop (Inr block # rs) tot f data sz =
     (if block = [] then (None, f, data)
      else if tot = 0 then (Some ZeroDivisionError, f @ block, data @ block)
      else read_loop rs tot (f @ block) (data @ block) (sz + length block))"

text \<open>Lines 38 to 42: the cached bytes, when the file exists and its digest matches.\<close>

definition cache_hit :: "(bytes \<Rightarrow> string) \<Rightarrow> string \<Rightarrow> string \<Rightarrow> state \<Rightarrow> bytes option" where
  "cache_hit sha256 check filename s =
     (case files s filename of
        None \<Rightarrow> None
      | Some data \<Rightarrow> if sha256 data = lower check then Some data else None)"

text \<open>
  \<^verbatim>\<open>download_progress(url, check, name, filename)\<close>. The hash function
  \<^verbatim>\<open>hashlib.sha256(data).hexdigest()\<close> and the network are parameters; \<^verbatim>\<open>pkg\<close> is the global
  variable that the message of line 63 reads. The file is opened for writing, and so
  emptied, before the URL is opened; an exception leaves it as far as it was written.
\<close>

definition download_progress ::
  "(bytes \<Rightarrow> string) \<Rightarrow> (string \<Rightarrow> py_error + response) \<Rightarrow> string \<Rightarrow>
   string \<Rightarrow> string \<Rightarrow> string \<Rightarrow> string \<Rightarrow> state \<Rightarrow> (py_error + bytes) \<times> state" where
  "download_progress sha256 net pkg url check name filename s =
     (case cache_hit sha256 check filename s of
        Some data \<Rightarrow> (Inr data, s)
      | None \<Rightarrow>
         (let s1 = s\<lparr>files := (files s)(filename \<mapsto> []), requests := requests s @ [url]\<rparr> in
          case net url of
            Inl e \<Rightarrow> (Inl e, s1)
          | Inr res \<Rightarrow>
             (case content_length res of
                Inl e \<Rightarrow> (Inl e, s1)
              | Inr tot \<Rightarrow>
                 (case read_loop (reads res) tot [] [] 0 of
                    (Some e, f, data) \<Rightarrow> (Inl e, s1\<lparr>files := (files s1)(filename \<mapsto> f)\<rparr>)
                  | (None, f, data) \<Rightarrow>
                     (let s2 = s1\<lparr>files := (files s1)(filename \<mapsto> f)\<rparr> in
                      if lower check \<noteq> sha256 data
                      then (Inl (SystemExit (''Hash mismatch for f'' @ pkg)), s2)
                      else (Inr data, s2\<lparr>total_download := total_download s2 + length data\<rparr>))))))"


section \<open>The package index and the version scan (lines 127 to 143)\<close>

text \<open>
  \<^verbatim>\<open>xs[i]\<close>: a negative index counts from the end; IndexError outside the list.
\<close>

definition getitem :: "'a list \<Rightarrow> int \<Rightarrow> py_error + 'a" where
  "getitem xs i =
     (let n = int (length xs); k = (if i < 0 then i + n else i)
      in if k < 0 then Inl IndexError
         else if n \<le> k then Inl IndexError
         else Inr (xs ! nat k))"

text \<open>
  \<^verbatim>\<open>packages.setdefault(p["id"].lower(), []).append(p)\<close> for every record of the
  manifest; the dictionary is an association list in insertion order and \<open>ident\<close> reads
  the field \<^verbatim>\<open>id\<close> of a record.
\<close>

definition setdefault_append :: "string \<Rightarrow> 'p \<Rightarrow> (string \<times> 'p list) list \<Rightarrow> (string \<times> 'p list) list" where
  "setdefault_append k p d =
     (case map_of d k of
        None \<Rightarrow> d @ [(k, [p])]
      | Some ps \<Rightarrow> AList.update k (ps @ [p]) d)"

definition build_packages :: "('p \<Rightarrow> string) \<Rightarrow> 'p list \<Rightarrow> (string \<times> 'p list) list" where
  "build_packages ident ps = fold (\<lambda>p d. setdefault_append (lower (ident p)) p d) ps []"

text \<open>
  The body of the loop of lines 134 to 143 for one key \<open>pid\<close>, on the two dictionaries
  \<^verbatim>\<open>msvc\<close> and \<^verbatim>\<open>sdk\<close>. \<^verbatim>\<open>pver[0]\<close> raises on an empty string.
\<close>

definition scan_key ::
  "string \<Rightarrow> (string \<times> string) list \<times> (string \<times> string) list \<Rightarrow>
   py_error + (string \<times> string) list \<times> (string \<times> string) list" where
  "scan_key pid ds =
     (case ds of (msvc, sdk) \<Rightarrow>
        if startswith pid (lower ''Microsoft.VisualStudio.Component.VC.'')
           \<and> endswith pid (lower ''.x86.x64'')
        then (let pver = join ''.'' (py_slice (split CHR ''.'' pid) 4 6) in
              case getitem pver 0 of
                Inl e \<Rightarrow> Inl e
              | Inr c \<Rightarrow>
                  if isnumeric [c] then Inr (AList.update pver pid msvc, sdk)
                  else Inr (msvc, sdk))
        else if startswith pid (lower ''Microsoft.VisualStudio.Component.Windows10SDK.'')
                \<or> startswith pid (lower ''Microsoft.VisualStudio.Component.Windows11SDK.'')
        then (case getitem (split CHR ''.'' pid) (- 1) of
                Inl e \<Rightarrow> Inl e
              | Inr pver \<Rightarrow>
                  if isnumeric pver then Inr (msvc, AList.update pver pid sdk)
                  else Inr (msvc, sdk))
        else Inr (msvc, sdk))"

text \<open>The loop over \<^verbatim>\<open>packages.items()\<close>; an exception ends it.\<close>

fun scan_keys ::
  "string list \<Rightarrow> (string \<times> string) list \<times> (string \<times> string) list \<Rightarrow>
   py_error + (string \<times> string) list \<times> (string \<times> string) list" where
  "scan_keys [] ds = Inr ds"
| "scan_keys (pid # pids) ds =
     (case scan_key pid ds of Inl e \<Rightarrow> Inl e | Inr ds' \<Rightarrow> scan_keys pids ds')"

definition find_versions ::
  "('p \<Rightarrow> string) \<Rightarrow> 'p list \<Rightarrow> py_error + (string \<times> string) list \<times> (string \<times> string) list" where
  "find_versions ident ps = scan_keys (map fst (build_packages ident ps)) ([], [])"


section \<open>The cabinet scanner (lines 68 to 74)\<close>

text \<open>
  \<^verbatim>\<open>s.find(sub, start)\<close>: the least offset from \<open>start\<close> on at which \<open>sub\<close> occurs in \<open>s\<close>,
  and \<open>None\<close> for the result -1.
\<close>

function bytes_find :: "bytes \<Rightarrow> bytes \<Rightarrow> nat \<Rightarrow> nat option" where
  "bytes_find s sub start =
     (if length s < start + length sub then None
      else if take (length sub) (drop start s) = sub then Some start
      else bytes_find s sub (Suc start))"
  by pat_completeness auto
termination
  by (relation "measure (\<lambda>(s, sub, start). Suc (length s) - start)") auto

text \<open>\<^verbatim>\<open>b.decode("ascii")\<close>: fails on a byte above 127.\<close>

definition is_ascii :: "bytes \<Rightarrow> bool" where
  "is_ascii b = list_all (\<lambda>c. (of_char c :: nat) < 128) b"

definition decode_ascii :: "bytes \<Rightarrow> py_error + string" where
  "decode_ascii b = (if is_ascii b then Inr b else Inl UnicodeDecodeError)"

text \<open>
  The generator, from the value \<open>index\<close> of the loop variable: the names it yields, in
  order, and how it ends: \<open>None\<close> for the \<^verbatim>\<open>return\<close>, \<open>Some e\<close> for an exception raised
  while it computes the next name.
\<close>

function cabs_loop :: "bytes \<Rightarrow> nat \<Rightarrow> string list \<times> py_error option" where
  "cabs_loop msi index =
     (case bytes_find msi ''.cab'' (index + 4) of
        None \<Rightarrow> ([], None)
      | Some i \<Rightarrow>
          (case decode_ascii (py_slice msi (int i - 32) (int i + 4)) of
             Inl e \<Rightarrow> ([], Some e)
           | Inr name \<Rightarrow> (case cabs_loop msi i of (names, r) \<Rightarrow> (name # names, r))))"
  by pat_completeness auto
termination
proof (relation "measure (\<lambda>(msi, index). length msi - index)")
  show "wf (measure (\<lambda>(msi, index). length msi - index))"
    by simp
next
  fix msi :: bytes and index i :: nat and name :: string
  assume found: "bytes_find msi ''.cab'' (index + 4) = Some i"
  have bound: "bytes_find s sub k = Some j \<Longrightarrow> k \<le> j \<and> j + length sub \<le> length s"
    for s sub :: bytes and k j :: nat
  proof (induction s sub k rule: bytes_find.induct)
    case (1 s sub start)
    show ?case
    proof (cases "length s < start + length sub")
      case True
      with "1.prems" show ?thesis by simp
    next
      case False
      show ?thesis
      proof (cases "take (length sub) (drop start s) = sub")
        case True
        with False "1.prems" show ?thesis by simp
      next
        case neq: False
        with False "1.prems" have "bytes_find s sub (Suc start) = Some j" by simp
        from "1.IH" [OF False neq this] show ?thesis by simp
      qed
    qed
  qed
  from bound [OF found] have "index + 4 \<le> i" and "i + 4 \<le> length msi" by simp_all
  then show "((msi, i), (msi, index)) \<in> measure (\<lambda>(msi, index). length msi - index)"
    by simp
qed

definition get_msi_cabs :: "bytes \<Rightarrow> string list \<times> py_error option" where
  "get_msi_cabs msi = cabs_loop msi 0"

text \<open>
  \<^verbatim>\<open>list(g)\<close> of line 246 on a generator: its items, or the exception that ended it.
\<close>

definition py_list :: "'a list \<times> py_error option \<Rightarrow> py_error + 'a list" where
  "py_list g = (case g of (items, None) \<Rightarrow> Inr items | (items, Some e) \<Rightarrow> Inl e)"


text \<open>
  For the statements: \<open>.cab\<close> occurs at offset \<open>i\<close>; the offsets from 4 on at which it
  occurs, in increasing order; the slice the generator decodes for the occurrence at
  \<open>i\<close>.
\<close>

definition marker_at :: "bytes \<Rightarrow> nat \<Rightarrow> bool" where
  "marker_at msi i = (take 4 (drop i msi) = ''.cab'')"

definition cab_offsets :: "bytes \<Rightarrow> nat list" where
  "cab_offsets msi = filter (marker_at msi) [4..<length msi]"

abbreviation window :: "bytes \<Rightarrow> nat \<Rightarrow> bytes" where
  "window msi i \<equiv> py_slice msi (int i - 32) (int i + 4)"

section \<open>The manifest fetch (lines 28 to 33 and 96 to 113)\<close>





section \<open>Theorems\<close>

lemma fold_max_eq: "fold (\<lambda>y m. if m < y then y else m) xs (x::string) = Max (set (x # xs))"
proof (induction xs arbitrary: x)
  case Nil
  show ?case by simp
next
  case (Cons y ys)
  have s: "(if x < y then y else x) = max x y"
    by (auto simp add: max_def)
  have "fold (\<lambda>y m. if m < y then y else m) (y # ys) x
          = fold (\<lambda>y m. if m < y then y else m) ys (max x y)"
    by (simp only: fold_simps s)
  also have "\<dots> = Max (set (max x y # ys))"
    by (rule Cons.IH)
  also have "\<dots> = Max (set (x # y # ys))"
    by (cases ys) (simp_all add: max.assoc)
  finally show ?case .
qed

lemma py_max_eq: "xs \<noteq> [] \<Longrightarrow> py_max xs = Inr (Max (set xs))"
proof (cases xs)
  case Nil
  assume "xs \<noteq> []"
  with Nil show ?thesis by simp
next
  case (Cons a list)
  show ?thesis unfolding Cons py_max.simps fold_max_eq ..
qed

lemma sort_not_Nil: "xs \<noteq> [] \<Longrightarrow> sort xs \<noteq> []"
  by (metis length_sort length_0_conv)

text \<open>
  C1. For every non-empty dictionary of discovered versions, selection with no requested
  version (absent, or the empty string) returns the greatest key in the lexicographic
  order of strings; for the keys "10.0" and "9.9" this is "9.9".
\<close>

theorem select_version_lexicographic_max:
  "d \<noteq> [] \<Longrightarrow>
     select_version None d = Inr (Max (set (map fst d))) \<and>
     select_version (Some []) d = Inr (Max (set (map fst d))) \<and>
     select_version None [(''10.0'', ''a''), (''9.9'', ''b'')] = Inr ''9.9''"
proof -
  assume d: "d \<noteq> []"
  have "sorted_keys d \<noteq> []" using d by (simp add: sorted_keys_def sort_not_Nil)
  then have m: "py_max (sorted_keys d) = Inr (Max (set (map fst d)))"
    by (simp add: py_max_eq sorted_keys_def)
  have e: "select_version None [(''10.0'', ''a''), (''9.9'', ''b'')] = Inr ''9.9''"
    by (simp add: select_version_def sorted_keys_def)
  show ?thesis using m e by (simp add: select_version_def)
qed

theorem select_version_lexicographic_max_witness:
  "[(''14.29'', ''p''), (''14.3'', ''q'')] \<noteq> [] \<and>
   select_version None [(''14.29'', ''p''), (''14.3'', ''q'')] = Inr ''14.3''"
  using select_version_lexicographic_max [of "[(''14.29'', ''p''), (''14.3'', ''q'')]"]
  by simp

subsection \<open>The downloader\<close>

lemma read_loop_same: "read_loop rs tot f data sz = (r, f', data') \<Longrightarrow> f = data \<Longrightarrow> f' = data'"
proof (induction rs tot f data sz rule: read_loop.induct)
  case (1 tot f data sz)
  then show ?case by auto
next
  case (2 e rs tot f data sz)
  then show ?case by auto
next
  case (3 block rs tot f data sz)
  then show ?case by (auto split: if_splits)
qed

lemma cache_hit_Some:
  "cache_hit sha256 check filename s = Some data \<longleftrightarrow>
     files s filename = Some data \<and> sha256 data = lower check"
  by (auto simp add: cache_hit_def split: option.splits)

lemma download_progress_hit:
  "cache_hit sha256 check filename s = Some data \<Longrightarrow>
     download_progress sha256 net pkg url check name filename s = (Inr data, s)"
  by (simp add: download_progress_def)

lemma download_progress_fresh:
  assumes "download_progress sha256 net pkg url check name filename s = (Inr data, s')"
    and "cache_hit sha256 check filename s = None"
  shows "sha256 data = lower check
     \<and> files s' filename = Some data
     \<and> requests s' = requests s @ [url]
     \<and> total_download s' = total_download s + length data"
proof -
  from assms obtain res tot f where
      n: "net url = Inr res" and c: "content_length res = Inr tot"
      and r: "read_loop (reads res) tot [] [] 0 = (None, f, data)"
      and h: "lower check = sha256 data"
      and s': "s' = s\<lparr>files := (files s)(filename \<mapsto> f), requests := requests s @ [url],
                     total_download := total_download s + length data\<rparr>"
    by (auto simp add: download_progress_def Let_def
          split: sum.splits option.splits prod.splits if_splits)
  from r have "f = data" by (rule read_loop_same) simp
  with h s' show ?thesis by simp
qed

text \<open>
  C9. Whenever the function returns bytes, from the cache or from a fresh download, the
  digest of the returned bytes equals the expected digest in lower case.
\<close>

theorem download_progress_returns_verified:
  "download_progress sha256 net pkg url check name filename s = (Inr data, s')
     \<Longrightarrow> sha256 data = lower check"
proof (cases "cache_hit sha256 check filename s")
  case None
  assume "download_progress sha256 net pkg url check name filename s = (Inr data, s')"
  from download_progress_fresh [OF this None] show ?thesis by simp
next
  case (Some d)
  assume "download_progress sha256 net pkg url check name filename s = (Inr data, s')"
  with Some have "d = data" by (simp add: download_progress_def)
  with Some show ?thesis by (simp add: cache_hit_Some)
qed

theorem download_progress_returns_verified_witness:
  "download_progress (\<lambda>d. if d = ''xy'' then ''ab'' else ''00'')
      (\<lambda>u. Inr \<lparr>content_length = Inr 2, reads = [Inr ''x'', Inr ''y'']\<rparr>)
      ''p'' ''u'' ''AB'' ''n'' ''f.zip''
      \<lparr>files = Map.empty, total_download = 0, requests = []\<rparr>
    = (Inr ''xy'', \<lparr>files = [''f.zip'' \<mapsto> ''xy''], total_download = 2, requests = [''u'']\<rparr>)
   \<and> (if ''xy'' = ''xy'' then ''ab'' else ''00'') = lower ''AB''"
proof -
  have l: "lower ''AB'' = ''ab''" by code_simp
  have run: "download_progress (\<lambda>d. if d = ''xy'' then ''ab'' else ''00'')
      (\<lambda>u. Inr \<lparr>content_length = Inr 2, reads = [Inr ''x'', Inr ''y'']\<rparr>)
      ''p'' ''u'' ''AB'' ''n'' ''f.zip''
      \<lparr>files = Map.empty, total_download = 0, requests = []\<rparr>
    = (Inr ''xy'', \<lparr>files = [''f.zip'' \<mapsto> ''xy''], total_download = 2, requests = [''u'']\<rparr>)"
    by (simp add: download_progress_def cache_hit_def l)
  from download_progress_returns_verified [OF run] run show ?thesis by simp
qed


text \<open>
  C4. When no valid cached copy exists, the stream is read to its end and the digest of
  the bytes read differs from the expected digest in lower case, the call ends with
  the SystemExit of line 63. The URL has been opened once and is not opened again, the file
  holds the bytes that were read (it is not removed), and the download counter is
  unchanged.
\<close>

theorem download_progress_mismatch_fatal:
  assumes "cache_hit sha256 check filename s = None"
    and "net url = Inr res"
    and "content_length res = Inr tot"
    and "read_loop (reads res) tot [] [] 0 = (None, f, data)"
    and "sha256 data \<noteq> lower check"
  shows "download_progress sha256 net pkg url check name filename s =
           (Inl (SystemExit (''Hash mismatch for f'' @ pkg)),
            s\<lparr>files := (files s)(filename \<mapsto> data), requests := requests s @ [url]\<rparr>)"
proof -
  from assms(4) have "f = data" by (rule read_loop_same) simp
  moreover from assms(5) have "lower check \<noteq> sha256 data" by auto
  ultimately show ?thesis
    using assms(1-4) by (simp add: download_progress_def)
qed

theorem download_progress_mismatch_fatal_witness:
  "download_progress (\<lambda>d. if d = ''xy'' then ''ab'' else ''00'')
      (\<lambda>u. Inr \<lparr>content_length = Inr 2, reads = [Inr ''x'', Inr ''z'']\<rparr>)
      ''p'' ''u'' ''AB'' ''n'' ''f.zip''
      \<lparr>files = [''f.zip'' \<mapsto> ''old''], total_download = 7, requests = []\<rparr>
    = (Inl (SystemExit ''Hash mismatch for fp''),
       \<lparr>files = [''f.zip'' \<mapsto> ''xz''], total_download = 7, requests = [''u'']\<rparr>)"
proof -
  have l: "lower ''AB'' = ''ab''" by code_simp
  have "download_progress (\<lambda>d. if d = ''xy'' then ''ab'' else ''00'')
      (\<lambda>u. Inr \<lparr>content_length = Inr 2, reads = [Inr ''x'', Inr ''z'']\<rparr>)
      ''p'' ''u'' ''AB'' ''n'' ''f.zip''
      \<lparr>files = [''f.zip'' \<mapsto> ''old''], total_download = 7, requests = []\<rparr>
    = (Inl (SystemExit (''Hash mismatch for f'' @ ''p'')),
       \<lparr>files = [''f.zip'' \<mapsto> ''old''], total_download = 7, requests = []\<rparr>
         \<lparr>files := (files \<lparr>files = [''f.zip'' \<mapsto> ''old''], total_download = 7, requests = []\<rparr>)
                      (''f.zip'' \<mapsto> ''xz''),
          requests := requests \<lparr>files = [''f.zip'' \<mapsto> ''old''], total_download = 7,
                                 requests = []\<rparr> @ [''u'']\<rparr>)"
    by (rule download_progress_mismatch_fatal [where res = "\<lparr>content_length = Inr 2, reads = [Inr ''x'', Inr ''z'']\<rparr>"
          and tot = 2 and f = "''xz''"])
       (simp_all add: cache_hit_def l)
  then show ?thesis by simp
qed

text \<open>
  C5. A file that exists under the cache key with the expected digest (in lower case) is
  returned with the state unchanged, so no URL is opened. Hence after any call that
  returned bytes, a second call with the same digest and cache key returns the same
  bytes and changes nothing, whatever the network would answer; when the first call was
  not itself served from the cache, it opened the URL exactly once, so the two calls
  together opened it once.
\<close>

theorem download_progress_cache_roundtrip:
  "(files s filename = Some data \<and> sha256 data = lower check \<longrightarrow>
      download_progress sha256 net pkg url check name filename s = (Inr data, s))
   \<and> (download_progress sha256 net pkg url check name filename s = (Inr data, s') \<longrightarrow>
        download_progress sha256 net' pkg' url check name' filename s' = (Inr data, s')
        \<and> (cache_hit sha256 check filename s = None \<longrightarrow>
             requests s' = requests s @ [url]
             \<and> total_download s' = total_download s + length data))"
proof (intro conjI impI)
  assume "files s filename = Some data \<and> sha256 data = lower check"
  then have "cache_hit sha256 check filename s = Some data"
    by (simp add: cache_hit_Some)
  then show "download_progress sha256 net pkg url check name filename s = (Inr data, s)"
    by (rule download_progress_hit)
next
  assume run: "download_progress sha256 net pkg url check name filename s = (Inr data, s')"
  have "cache_hit sha256 check filename s' = Some data"
  proof (cases "cache_hit sha256 check filename s")
    case None
    from download_progress_fresh [OF run None] show ?thesis
      by (simp add: cache_hit_Some)
  next
    case (Some d)
    with run show ?thesis by (simp add: download_progress_def)
  qed
  then show "download_progress sha256 net' pkg' url check name' filename s' = (Inr data, s')"
    by (rule download_progress_hit)
next
  assume run: "download_progress sha256 net pkg url check name filename s = (Inr data, s')"
    and miss: "cache_hit sha256 check filename s = None"
  from download_progress_fresh [OF run miss]
  show "requests s' = requests s @ [url]" by simp
next
  assume run: "download_progress sha256 net pkg url check name filename s = (Inr data, s')"
    and miss: "cache_hit sha256 check filename s = None"
  from download_progress_fresh [OF run miss]
  show "total_download s' = total_download s + length data" by simp
qed

theorem download_progress_cache_roundtrip_witness:
  "download_progress (\<lambda>d. if d = ''xy'' then ''ab'' else ''00'')
      (\<lambda>u. Inr \<lparr>content_length = Inr 2, reads = [Inr ''x'', Inr ''y'']\<rparr>)
      ''p'' ''u'' ''AB'' ''n'' ''f.zip''
      \<lparr>files = Map.empty, total_download = 0, requests = []\<rparr>
    = (Inr ''xy'', \<lparr>files = [''f.zip'' \<mapsto> ''xy''], total_download = 2, requests = [''u'']\<rparr>)
   \<and> cache_hit (\<lambda>d. if d = ''xy'' then ''ab'' else ''00'') ''AB'' ''f.zip''
        \<lparr>files = Map.empty, total_download = 0, requests = []\<rparr> = None
   \<and> download_progress (\<lambda>d. if d = ''xy'' then ''ab'' else ''00'')
      (\<lambda>u. Inl URLError_other)
      ''q'' ''u'' ''AB'' ''m'' ''f.zip''
      \<lparr>files = [''f.zip'' \<mapsto> ''xy''], total_download = 2, requests = [''u'']\<rparr>
    = (Inr ''xy'', \<lparr>files = [''f.zip'' \<mapsto> ''xy''], total_download = 2, requests = [''u'']\<rparr>)"
proof -
  have l: "lower ''AB'' = ''ab''" by code_simp
  have run: "download_progress (\<lambda>d. if d = ''xy'' then ''ab'' else ''00'')
      (\<lambda>u. Inr \<lparr>content_length = Inr 2, reads = [Inr ''x'', Inr ''y'']\<rparr>)
      ''p'' ''u'' ''AB'' ''n'' ''f.zip''
      \<lparr>files = Map.empty, total_download = 0, requests = []\<rparr>
    = (Inr ''xy'', \<lparr>files = [''f.zip'' \<mapsto> ''xy''], total_download = 2, requests = [''u'']\<rparr>)"
    by (simp add: download_progress_def cache_hit_def l)
  have miss: "cache_hit (\<lambda>d. if d = ''xy'' then ''ab'' else ''00'') ''AB'' ''f.zip''
        \<lparr>files = Map.empty, total_download = 0, requests = []\<rparr> = None"
    by (simp add: cache_hit_def)
  from download_progress_cache_roundtrip
         [of "\<lparr>files = Map.empty, total_download = 0, requests = []\<rparr>" "''f.zip''" "''xy''"
             "\<lambda>d. if d = ''xy'' then ''ab'' else ''00''" "''AB''"
             "\<lambda>u. Inr \<lparr>content_length = Inr 2, reads = [Inr ''x'', Inr ''y'']\<rparr>"
             "''p''" "''u''" "''n''"
             "\<lparr>files = [''f.zip'' \<mapsto> ''xy''], total_download = 2, requests = [''u'']\<rparr>"
             "\<lambda>u. Inl URLError_other" "''q''" "''m''"]
       run miss
  show ?thesis by simp
qed


subsection \<open>The version scan\<close>

lemma split_not_Nil: "split c s \<noteq> []"
  by (induction s) (auto split: list.splits)











subsection \<open>The cabinet scanner\<close>


declare bytes_find.simps [simp del] cabs_loop.simps [simp del]

lemma bytes_find_Some:
  "bytes_find s sub k = Some j \<Longrightarrow>
     k \<le> j \<and> j + length sub \<le> length s \<and> take (length sub) (drop j s) = sub
     \<and> (\<forall>m. k \<le> m \<and> m < j \<longrightarrow> take (length sub) (drop m s) \<noteq> sub)"
proof (induction s sub k rule: bytes_find.induct)
  case (1 s sub start)
  show ?case
  proof (cases "length s < start + length sub")
    case True
    with "1.prems" show ?thesis by (simp add: bytes_find.simps)
  next
    case False
    show ?thesis
    proof (cases "take (length sub) (drop start s) = sub")
      case True
      with False "1.prems" have "j = start" by (simp add: bytes_find.simps)
      with True False show ?thesis by auto
    next
      case neq: False
      with False "1.prems" have "bytes_find s sub (Suc start) = Some j"
        by (simp add: bytes_find.simps)
      from "1.IH" [OF False neq this]
      have ih: "Suc start \<le> j" "j + length sub \<le> length s"
        "take (length sub) (drop j s) = sub"
        "\<And>m. Suc start \<le> m \<Longrightarrow> m < j \<Longrightarrow> take (length sub) (drop m s) \<noteq> sub"
        by simp_all
      have "take (length sub) (drop m s) \<noteq> sub" if "start \<le> m" and "m < j" for m
      proof (cases "m = start")
        case True
        with neq show ?thesis by simp
      next
        case False
        with that have "Suc start \<le> m" by simp
        then show ?thesis using that(2) by (rule ih(4))
      qed
      with ih(1-3) show ?thesis by simp
    qed
  qed
qed

lemma bytes_find_None:
  "bytes_find s sub k = None \<Longrightarrow> sub \<noteq> [] \<Longrightarrow> k \<le> m \<Longrightarrow> take (length sub) (drop m s) \<noteq> sub"
proof (induction s sub k rule: bytes_find.induct)
  case (1 s sub start)
  show ?case
  proof (cases "length s < start + length sub")
    case True
    with "1.prems" have "length s - m < length sub"
      by (cases sub) auto
    then have "length (take (length sub) (drop m s)) < length sub"
      by simp
    then show ?thesis by auto
  next
    case False
    with "1.prems" have neq: "take (length sub) (drop start s) \<noteq> sub"
      by (auto simp add: bytes_find.simps split: if_splits)
    with False "1.prems" have n: "bytes_find s sub (Suc start) = None"
      by (simp add: bytes_find.simps)
    show ?thesis
    proof (cases "m = start")
      case True
      with neq show ?thesis by simp
    next
      case False
      with "1.prems" have "Suc start \<le> m" by simp
      from "1.IH" [OF \<open>\<not> length s < start + length sub\<close> neq n "1.prems"(2) this]
      show ?thesis .
    qed
  qed
qed

lemma marker_at_chars:
  assumes "marker_at msi i"
  shows "i + 4 \<le> length msi" "msi ! i = CHR ''.''" "msi ! (i + 1) = CHR ''c''"
    "msi ! (i + 2) = CHR ''a''" "msi ! (i + 3) = CHR ''b''"
proof -
  from assms have t: "take 4 (drop i msi) = ''.cab''" by (simp add: marker_at_def)
  then have "length (take 4 (drop i msi)) = 4" by simp
  then show l: "i + 4 \<le> length msi" by simp
  have n: "take 4 (drop i msi) ! k = msi ! (i + k)" if "k < 4" for k
    using that l by simp
  from n [of 0] t show "msi ! i = CHR ''.''" by simp
  from n [of 1] t show "msi ! (i + 1) = CHR ''c''" by simp
  from n [of 2] t show "msi ! (i + 2) = CHR ''a''" by simp
  from n [of 3] t show "msi ! (i + 3) = CHR ''b''" by simp
qed

lemma marker_no_overlap:
  assumes "marker_at msi i" and "marker_at msi j" and "i < j"
  shows "i + 4 \<le> j"
proof (rule ccontr)
  assume "\<not> i + 4 \<le> j"
  with assms(3) have "j = i + 1 \<or> j = i + 2 \<or> j = i + 3" by arith
  with marker_at_chars [OF assms(1)] marker_at_chars(2) [OF assms(2)]
  show False by auto
qed

lemma filter_upt_first:
  assumes "k \<le> j" and "j < n" and "P j" and "\<And>m. k \<le> m \<Longrightarrow> m < j \<Longrightarrow> \<not> P m"
  shows "filter P [k..<n] = j # filter P [Suc j..<n]"
proof -
  have "[k..<n] = [k..<j] @ j # [Suc j..<n]"
    using assms(1,2) by (metis le_add_diff_inverse less_imp_le_nat upt_add_eq_append upt_conv_Cons)
  moreover have "filter P [k..<j] = []"
    using assms(4) by (auto simp add: filter_empty_conv)
  ultimately show ?thesis using assms(3) by simp
qed

lemma filter_upt_skip:
  assumes "a \<le> b" and "\<And>m. a \<le> m \<Longrightarrow> m < b \<Longrightarrow> \<not> P m"
  shows "filter P [a..<n] = filter P [b..<n]"
proof (cases "b \<le> n")
  case True
  with assms(1) have "[a..<n] = [a..<b] @ [b..<n]"
    by (metis le_add_diff_inverse upt_add_eq_append)
  moreover have "filter P [a..<b] = []"
    using assms(2) by (auto simp add: filter_empty_conv)
  ultimately show ?thesis by simp
next
  case False
  then have "filter P [a..<n] = []"
    using assms(2) by (auto simp add: filter_empty_conv)
  with False show ?thesis by simp
qed

lemma length_cab: "length ''.cab'' = 4"
  by simp

lemma cab_find_Some:
  assumes "bytes_find msi ''.cab'' k = Some i"
  shows "k \<le> i \<and> i + 4 \<le> length msi \<and> marker_at msi i
     \<and> (\<forall>m. k \<le> m \<and> m < i \<longrightarrow> \<not> marker_at msi m)"
  using bytes_find_Some [OF assms] unfolding marker_at_def length_cab .

lemma cab_find_None:
  assumes "bytes_find msi ''.cab'' k = None" and "k \<le> m"
  shows "\<not> marker_at msi m"
proof -
  have "''.cab'' \<noteq> []" by simp
  from bytes_find_None [OF assms(1) this assms(2)] show ?thesis
    unfolding marker_at_def length_cab .
qed

lemma markers_from_found:
  assumes "bytes_find msi ''.cab'' k = Some i"
  shows "filter (marker_at msi) [k..<n] =
           (if i < n then i # filter (marker_at msi) [i + 4..<n] else [])"
proof -
  from cab_find_Some [OF assms]
  have ki: "k \<le> i" and mi: "marker_at msi i"
    and least: "\<And>m. k \<le> m \<Longrightarrow> m < i \<Longrightarrow> \<not> marker_at msi m"
    by simp_all
  show ?thesis
  proof (cases "i < n")
    case True
    have "filter (marker_at msi) [k..<n] = i # filter (marker_at msi) [Suc i..<n]"
      using ki True mi least by (rule filter_upt_first)
    also have "filter (marker_at msi) [Suc i..<n] = filter (marker_at msi) [i + 4..<n]"
    proof (rule filter_upt_skip)
      show "Suc i \<le> i + 4" by simp
    next
      fix m assume "Suc i \<le> m" and "m < i + 4"
      then show "\<not> marker_at msi m"
        using marker_no_overlap [OF mi, of m] by auto
    qed
    finally show ?thesis using True by simp
  next
    case False
    then have "filter (marker_at msi) [k..<n] = []"
      using least by (auto simp add: filter_empty_conv)
    with False show ?thesis by simp
  qed
qed

lemma markers_none_found:
  assumes "bytes_find msi ''.cab'' k = None"
  shows "filter (marker_at msi) [k..<n] = []"
  using cab_find_None [OF assms] by (auto simp add: filter_empty_conv)

lemma cabs_loop_all:
  "(\<And>o'. o' \<in> set (filter (marker_at msi) [index + 4..<length msi]) \<Longrightarrow> is_ascii (window msi o'))
   \<Longrightarrow> cabs_loop msi index
         = (map (window msi) (filter (marker_at msi) [index + 4..<length msi]), None)"
proof (induction msi index rule: cabs_loop.induct)
  case (1 msi index)
  show ?case
  proof (cases "bytes_find msi ''.cab'' (index + 4)")
    case None
    then show ?thesis
      by (simp add: cabs_loop.simps [of msi index] markers_none_found)
  next
    case (Some i)
    from cab_find_Some [OF Some] have il: "i < length msi" by simp
    have ms: "filter (marker_at msi) [index + 4..<length msi]
                = i # filter (marker_at msi) [i + 4..<length msi]"
      using markers_from_found [OF Some, of "length msi"] il by simp
    have asc: "is_ascii (window msi i)"
      using "1.prems" [of i] ms by simp
    then have dec: "decode_ascii (window msi i) = Inr (window msi i)"
      by (simp add: decode_ascii_def)
    have "cabs_loop msi i = (map (window msi) (filter (marker_at msi) [i + 4..<length msi]), None)"
      using Some dec
    proof (rule "1.IH")
      fix o' assume "o' \<in> set (filter (marker_at msi) [i + 4..<length msi])"
      then have "o' \<in> set (filter (marker_at msi) [index + 4..<length msi])"
        unfolding ms by simp
      then show "is_ascii (window msi o')" by (rule "1.prems")
    qed
    then show ?thesis
      by (simp add: cabs_loop.simps [of msi index] Some dec ms)
  qed
qed

lemma cabs_loop_fail:
  "index + 4 \<le> p \<Longrightarrow> marker_at msi p \<Longrightarrow> \<not> is_ascii (window msi p) \<Longrightarrow>
   (\<And>o'. o' \<in> set (filter (marker_at msi) [index + 4..<p]) \<Longrightarrow> is_ascii (window msi o'))
   \<Longrightarrow> cabs_loop msi index
         = (map (window msi) (filter (marker_at msi) [index + 4..<p]), Some UnicodeDecodeError)"
proof (induction msi index rule: cabs_loop.induct)
  case (1 msi index)
  show ?case
  proof (cases "bytes_find msi ''.cab'' (index + 4)")
    case None
    from cab_find_None [OF None "1.prems"(1)] "1.prems"(2) show ?thesis by simp
  next
    case (Some i)
    from cab_find_Some [OF Some]
    have ki: "index + 4 \<le> i" and mi: "marker_at msi i"
      and least: "\<And>m. index + 4 \<le> m \<Longrightarrow> m < i \<Longrightarrow> \<not> marker_at msi m"
      by simp_all
    from least [OF "1.prems"(1)] "1.prems"(2) have ip: "i \<le> p" by (cases "p < i") auto
    have ms: "filter (marker_at msi) [index + 4..<p]
                = (if i < p then i # filter (marker_at msi) [i + 4..<p] else [])"
      by (rule markers_from_found [OF Some])
    show ?thesis
    proof (cases "i = p")
      case True
      with "1.prems"(3) have "decode_ascii (window msi i) = Inl UnicodeDecodeError"
        by (simp add: decode_ascii_def)
      with True ms show ?thesis
        by (simp add: cabs_loop.simps [of msi index] Some)
    next
      case False
      with ip have lt: "i < p" by simp
      have asc: "is_ascii (window msi i)"
        using "1.prems"(4) [of i] ms lt by simp
      then have dec: "decode_ascii (window msi i) = Inr (window msi i)"
        by (simp add: decode_ascii_def)
      from marker_no_overlap [OF mi "1.prems"(2) lt] have i4: "i + 4 \<le> p" .
      have "cabs_loop msi i
              = (map (window msi) (filter (marker_at msi) [i + 4..<p]), Some UnicodeDecodeError)"
        using Some dec i4 "1.prems"(2,3)
      proof (rule "1.IH")
        fix o' assume "o' \<in> set (filter (marker_at msi) [i + 4..<p])"
        then have "o' \<in> set (filter (marker_at msi) [index + 4..<p])"
          unfolding ms using lt by simp
        then show "is_ascii (window msi o')" by (rule "1.prems"(4))
      qed
      then show ?thesis
        by (simp add: cabs_loop.simps [of msi index] Some dec ms lt)
    qed
  qed
qed

lemma window_full:
  assumes "32 \<le> i" and "i + 4 \<le> length msi"
  shows "window msi i = take 36 (drop (i - 32) msi)"
proof -
  have "nat (int i - 32) = i - 32" by simp
  moreover have "nat (int i + 4 - (int i - 32)) = 36" by simp
  ultimately show ?thesis
    using assms by (simp add: py_slice_def Let_def min_def)
qed

lemma window_full_marker:
  assumes "32 \<le> i" and "marker_at msi i"
  shows "window msi i = take 32 (drop (i - 32) msi) @ ''.cab''"
proof -
  from marker_at_chars(1) [OF assms(2)] have l: "i + 4 \<le> length msi" .
  have "take 36 (drop (i - 32) msi)
          = take 32 (drop (i - 32) msi) @ take 4 (drop 32 (drop (i - 32) msi))"
    using take_add [of 32 4 "drop (i - 32) msi"] by simp
  also have "drop 32 (drop (i - 32) msi) = drop i msi"
    using assms(1) by simp
  finally show ?thesis
    using assms(2) window_full [OF assms(1) l] by (simp add: marker_at_def)
qed

lemma window_wrapped:
  assumes "i < 32" and "i + 4 \<le> length msi"
  shows "window msi i = drop (length msi + i - 32) (take (i + 4) msi)"
proof -
  have lo: "nat (max 0 (int i - 32 + int (length msi))) = length msi + i - 32"
    by (simp add: max_def) arith
  have hi: "nat (int i + 4 - max 0 (int i - 32 + int (length msi))) = i + 4 - (length msi + i - 32)"
    by (simp add: max_def) arith
  show ?thesis
    using assms by (simp add: py_slice_def Let_def min_def lo hi drop_take)
qed


lemma is_ascii_append: "is_ascii (a @ b) \<longleftrightarrow> is_ascii a \<and> is_ascii b"
  by (simp add: is_ascii_def)

lemma is_ascii_cab: "is_ascii ''.cab''"
  by code_simp

lemma cab_offsets_before:
  assumes "p \<in> set (cab_offsets msi)"
  shows "filter (\<lambda>i. i < p) (cab_offsets msi) = filter (marker_at msi) [4..<p]"
proof -
  from assms have b: "4 \<le> p" "p \<le> length msi" by (simp_all add: cab_offsets_def)
  then have "[4..<length msi] = [4..<p] @ [p..<length msi]"
    by (metis le_add_diff_inverse upt_add_eq_append)
  then have "filter (\<lambda>i. i < p) (cab_offsets msi)
      = filter (\<lambda>i. i < p) (filter (marker_at msi) [4..<p])
        @ filter (\<lambda>i. i < p) (filter (marker_at msi) [p..<length msi])"
    by (simp add: cab_offsets_def)
  moreover have "filter (\<lambda>i. i < p) (filter (marker_at msi) [4..<p]) = filter (marker_at msi) [4..<p]"
    by (simp add: filter_id_conv del: filter_filter)
  moreover have "filter (\<lambda>i. i < p) (filter (marker_at msi) [p..<length msi]) = []"
    by (auto simp add: filter_empty_conv)
  ultimately show ?thesis by simp
qed

text \<open>
  C2, as amended. When every occurrence of \<open>.cab\<close> from offset 4 on lies at an offset of
  at least 32 and is preceded by 32 ASCII bytes, the generator yields, for each
  occurrence in order, those 32 bytes followed by the marker \<open>.cab\<close> itself (36
  characters), and then returns. For 32 bytes \<open>X\<close> followed by \<open>.cab\<close> it yields the one
  name of 32 \<open>X\<close> and \<open>.cab\<close>; for bytes in which \<open>.cab\<close> does not occur it yields nothing.
\<close>

theorem get_msi_cabs_names_with_marker:
  "((\<forall>i \<in> set (cab_offsets msi). 32 \<le> i \<and> is_ascii (take 32 (drop (i - 32) msi))) \<longrightarrow>
      get_msi_cabs msi
        = (map (\<lambda>i. take 32 (drop (i - 32) msi) @ ''.cab'') (cab_offsets msi), None))
   \<and> get_msi_cabs (replicate 32 CHR ''X'' @ ''.cab'')
        = ([replicate 32 CHR ''X'' @ ''.cab''], None)
   \<and> (filter (marker_at blob) [0..<length blob] = [] \<longrightarrow> get_msi_cabs blob = ([], None))"
proof (intro conjI impI)
  assume h: "\<forall>i \<in> set (cab_offsets msi). 32 \<le> i \<and> is_ascii (take 32 (drop (i - 32) msi))"
  have w: "window msi i = take 32 (drop (i - 32) msi) @ ''.cab''"
    if "i \<in> set (cab_offsets msi)" for i
  proof -
    from that h have "32 \<le> i" by simp
    moreover from that have "marker_at msi i" by (simp add: cab_offsets_def)
    ultimately show ?thesis by (rule window_full_marker)
  qed
  have "cabs_loop msi 0 = (map (window msi) (filter (marker_at msi) [0 + 4..<length msi]), None)"
  proof (rule cabs_loop_all)
    fix i assume "i \<in> set (filter (marker_at msi) [0 + 4..<length msi])"
    then have i: "i \<in> set (cab_offsets msi)" by (simp add: cab_offsets_def)
    with h have "is_ascii (take 32 (drop (i - 32) msi))" by simp
    with w [OF i] show "is_ascii (window msi i)"
      by (simp add: is_ascii_append is_ascii_cab)
  qed
  then have "get_msi_cabs msi = (map (window msi) (cab_offsets msi), None)"
    by (simp add: get_msi_cabs_def cab_offsets_def)
  moreover have "map (window msi) (cab_offsets msi)
       = map (\<lambda>i. take 32 (drop (i - 32) msi) @ ''.cab'') (cab_offsets msi)"
    by (rule map_cong) (simp_all add: w)
  ultimately show "get_msi_cabs msi
        = (map (\<lambda>i. take 32 (drop (i - 32) msi) @ ''.cab'') (cab_offsets msi), None)"
    by simp
next
  show "get_msi_cabs (replicate 32 CHR ''X'' @ ''.cab'') = ([replicate 32 CHR ''X'' @ ''.cab''], None)"
    by code_simp
next
  assume "filter (marker_at blob) [0..<length blob] = []"
  then have n: "\<not> marker_at blob i" if "i < length blob" for i
    using that by (simp add: filter_empty_conv)
  have "cabs_loop blob 0 = (map (window blob) (filter (marker_at blob) [0 + 4..<length blob]), None)"
    by (rule cabs_loop_all) (simp add: n)
  moreover have "filter (marker_at blob) [0 + 4..<length blob] = []"
    by (simp add: filter_empty_conv n)
  ultimately show "get_msi_cabs blob = ([], None)"
    by (simp add: get_msi_cabs_def)
qed

theorem get_msi_cabs_names_with_marker_witness:
  "cab_offsets (replicate 40 CHR ''X'' @ ''.cab'' @ ''yz'') = [40]
   \<and> (32::nat) \<le> 40
   \<and> is_ascii (take 32 (drop (40 - 32) (replicate 40 CHR ''X'' @ ''.cab'' @ ''yz'')))
   \<and> get_msi_cabs (replicate 40 CHR ''X'' @ ''.cab'' @ ''yz'')
        = ([replicate 32 CHR ''X'' @ ''.cab''], None)
   \<and> filter (marker_at ''no cabinets here'') [0..<length ''no cabinets here''] = []
   \<and> get_msi_cabs ''no cabinets here'' = ([], None)"
proof -
  have o: "cab_offsets (replicate 40 CHR ''X'' @ ''.cab'' @ ''yz'') = [40]"
    by code_simp
  have a: "is_ascii (take 32 (drop (40 - 32) (replicate 40 CHR ''X'' @ ''.cab'' @ ''yz'')))"
    by code_simp
  have t: "take 32 (drop (40 - 32) (replicate 40 CHR ''X'' @ ''.cab'' @ ''yz'')) = replicate 32 CHR ''X''"
    by code_simp
  have e: "filter (marker_at ''no cabinets here'') [0..<length ''no cabinets here''] = []"
    by code_simp
  from get_msi_cabs_names_with_marker
         [of "replicate 40 CHR ''X'' @ ''.cab'' @ ''yz''" "''no cabinets here''"] o a t e
  show ?thesis by simp
qed

theorem get_msi_cabs_names_with_marker_counterexample:
  "fst (get_msi_cabs (replicate 32 CHR ''X'' @ ''.cab'')) \<noteq> [replicate 32 CHR ''X'']"
proof -
  have "get_msi_cabs (replicate 32 CHR ''X'' @ ''.cab'') = ([replicate 32 CHR ''X'' @ ''.cab''], None)"
    by code_simp
  then show ?thesis by simp
qed

text \<open>
  C3, as amended. When the slice of some occurrence of \<open>.cab\<close> holds a byte above 127 and
  the slices of all earlier occurrences are ASCII, the generator yields the names of the
  earlier occurrences and then ends with UnicodeDecodeError: no name of a later occurrence
  is produced, and \<^verbatim>\<open>list\<close> of the generator raises that exception.
\<close>

theorem get_msi_cabs_decode_error_ends_scan:
  assumes "p \<in> set (cab_offsets msi)"
    and "\<not> is_ascii (window msi p)"
    and "\<forall>i \<in> set (cab_offsets msi). i < p \<longrightarrow> is_ascii (window msi i)"
  shows "get_msi_cabs msi
           = (map (window msi) (filter (\<lambda>i. i < p) (cab_offsets msi)), Some UnicodeDecodeError)
     \<and> py_list (get_msi_cabs msi) = Inl UnicodeDecodeError"
proof -
  from assms(1) have p4: "0 + 4 \<le> p" and mp: "marker_at msi p"
    by (simp_all add: cab_offsets_def)
  have "cabs_loop msi 0
          = (map (window msi) (filter (marker_at msi) [0 + 4..<p]), Some UnicodeDecodeError)"
    using p4 mp assms(2)
  proof (rule cabs_loop_fail)
    fix i assume "i \<in> set (filter (marker_at msi) [0 + 4..<p])"
    then have "i \<in> set (filter (\<lambda>i. i < p) (cab_offsets msi))"
      by (simp add: cab_offsets_before [OF assms(1)])
    with assms(3) show "is_ascii (window msi i)" by simp
  qed
  then have "get_msi_cabs msi
           = (map (window msi) (filter (\<lambda>i. i < p) (cab_offsets msi)), Some UnicodeDecodeError)"
    by (simp add: get_msi_cabs_def cab_offsets_before [OF assms(1)])
  then show ?thesis by (simp add: py_list_def)
qed

theorem get_msi_cabs_decode_error_ends_scan_witness:
  "cab_offsets (replicate 32 CHR ''A'' @ ''.cab'' @ replicate 32 (CHR 0xFF) @ ''.cab''
                 @ replicate 32 CHR ''X'' @ ''.cab'') = [32, 68, 104]
   \<and> get_msi_cabs (replicate 32 CHR ''A'' @ ''.cab'' @ replicate 32 (CHR 0xFF) @ ''.cab''
                 @ replicate 32 CHR ''X'' @ ''.cab'')
       = ([replicate 32 CHR ''A'' @ ''.cab''], Some UnicodeDecodeError)"
proof -
  let ?B = "replicate 32 CHR ''A'' @ ''.cab'' @ replicate 32 (CHR 0xFF) @ ''.cab''
                 @ replicate 32 CHR ''X'' @ ''.cab''"
  have o: "cab_offsets ?B = [32, 68, 104]" by code_simp
  have a: "\<not> is_ascii (window ?B 68)" by code_simp
  have b: "is_ascii (window ?B 32)" by code_simp
  have w: "window ?B 32 = replicate 32 CHR ''A'' @ ''.cab''" by code_simp
  have "68 \<in> set (cab_offsets ?B)" unfolding o by simp
  moreover have "\<forall>i \<in> set (cab_offsets ?B). i < 68 \<longrightarrow> is_ascii (window ?B i)"
    unfolding o using b by simp
  ultimately show ?thesis
    using get_msi_cabs_decode_error_ends_scan [of 68 ?B] a o w by simp
qed

theorem get_msi_cabs_decode_error_ends_scan_counterexample:
  "marker_at (replicate 32 (CHR 0xFF) @ ''.cab'' @ replicate 32 CHR ''X'' @ ''.cab'') 68
   \<and> is_ascii (window (replicate 32 (CHR 0xFF) @ ''.cab'' @ replicate 32 CHR ''X'' @ ''.cab'') 68)
   \<and> get_msi_cabs (replicate 32 (CHR 0xFF) @ ''.cab'' @ replicate 32 CHR ''X'' @ ''.cab'')
       = ([], Some UnicodeDecodeError)
   \<and> py_list (get_msi_cabs (replicate 32 (CHR 0xFF) @ ''.cab'' @ replicate 32 CHR ''X'' @ ''.cab''))
       = Inl UnicodeDecodeError"
  by code_simp

text \<open>
  C10, as amended. When the first occurrence of \<open>.cab\<close> from offset 4 on lies at an offset
  \<open>p\<close> below 32, the start \<open>p - 32\<close> of the slice is negative and counts from the end of
  the bytes, not below 0: the slice is what remains of the bytes up to the end of the
  marker after the first \<open>n + p - 32\<close> of them are dropped, \<open>n\<close> being the length. It is
  empty when \<open>n\<close> is at least 36, and all the bytes up to the end of the marker when
  \<open>n + p\<close> is at most 32. The generator decodes this slice for its first name.
\<close>

theorem get_msi_cabs_wrapped_window:
  assumes "bytes_find msi ''.cab'' 4 = Some p" and "p < 32"
  shows "window msi p = drop (length msi + p - 32) (take (p + 4) msi)
     \<and> (36 \<le> length msi \<longrightarrow> window msi p = [])
     \<and> (length msi + p \<le> 32 \<longrightarrow> window msi p = take p msi @ ''.cab'')
     \<and> get_msi_cabs msi =
         (case decode_ascii (window msi p) of
            Inl e \<Rightarrow> ([], Some e)
          | Inr name \<Rightarrow> (name # fst (cabs_loop msi p), snd (cabs_loop msi p)))"
proof -
  from cab_find_Some [OF assms(1)] have l: "p + 4 \<le> length msi" and m: "marker_at msi p"
    by simp_all
  have w: "window msi p = drop (length msi + p - 32) (take (p + 4) msi)"
    using assms(2) l by (rule window_wrapped)
  have "take (p + 4) msi = take p msi @ take 4 (drop p msi)"
    by (rule take_add)
  with m have t: "take (p + 4) msi = take p msi @ ''.cab''"
    by (simp add: marker_at_def)
  have g: "get_msi_cabs msi =
         (case decode_ascii (window msi p) of
            Inl e \<Rightarrow> ([], Some e)
          | Inr name \<Rightarrow> (name # fst (cabs_loop msi p), snd (cabs_loop msi p)))"
    using assms(1)
    by (simp add: get_msi_cabs_def cabs_loop.simps [of msi 0] split: sum.splits prod.splits)
  from w t l g show ?thesis by simp
qed

theorem get_msi_cabs_wrapped_window_witness:
  "bytes_find ''abcd.cab'' ''.cab'' 4 = Some 4 \<and> (4::nat) < 32
   \<and> window ''abcd.cab'' 4 = ''abcd.cab''
   \<and> get_msi_cabs ''abcd.cab'' = ([''abcd.cab''], None)"
proof -
  have f: "bytes_find ''abcd.cab'' ''.cab'' 4 = Some 4" by code_simp
  have c: "cabs_loop ''abcd.cab'' 4 = ([], None)" by code_simp
  have d: "decode_ascii ''abcd.cab'' = Inr ''abcd.cab''" by code_simp
  from get_msi_cabs_wrapped_window [OF f] c d show ?thesis using f by simp
qed

theorem get_msi_cabs_wrapped_window_counterexample:
  "bytes_find (''abcd.cab'' @ replicate 28 CHR ''z'') ''.cab'' 4 = Some 4
   \<and> get_msi_cabs (''abcd.cab'' @ replicate 28 CHR ''z'') = ([[]], None)
   \<and> hd (fst (get_msi_cabs (''abcd.cab'' @ replicate 28 CHR ''z''))) \<noteq> ''.cab''"
  by code_simp

subsection \<open>The manifest fetch\<close>





end
